theory Spec2Isabelle
  imports Main "HOL-Library.Multiset"
begin

section \<open>String operations of the source language\<close>

text \<open>
  Strings are \<^typ>\<open>string\<close>. The source uses \<^verbatim>\<open>rstrip('/')\<close>, \<^verbatim>\<open>lstrip('/')\<close>,
  \<^verbatim>\<open>endswith('/')\<close>, \<^verbatim>\<open>startswith('.')\<close>, \<^verbatim>\<open>replace("\\", "/")\<close>,
  \<^verbatim>\<open>lower()\<close> and \<^verbatim>\<open>rfind('.')\<close>; each is written out here for a single
  character argument, which is all the source needs. \<^verbatim>\<open>lower()\<close> is modelled on the
  ASCII letters.
\<close>

definition slash :: char where
  "slash = CHR ''/''"

definition backslash :: char where
  "backslash = CHR 0x5C"

definition lstrip :: "char \<Rightarrow> string \<Rightarrow> string" where
  "lstrip c s = dropWhile (\<lambda>x. x = c) s"

definition rstrip :: "char \<Rightarrow> string \<Rightarrow> string" where
  "rstrip c s = rev (dropWhile (\<lambda>x. x = c) (rev s))"

definition endswith :: "string \<Rightarrow> char \<Rightarrow> bool" where
  "endswith s c = (s \<noteq> [] \<and> last s = c)"

definition startswith :: "string \<Rightarrow> char \<Rightarrow> bool" where
  "startswith s c = (s \<noteq> [] \<and> hd s = c)"

definition replace_char :: "char \<Rightarrow> char \<Rightarrow> string \<Rightarrow> string" where
  "replace_char a b s = map (\<lambda>x. if x = a then b else x) s"

definition lower_char :: "char \<Rightarrow> char" where
  "lower_char c =
     (case map_of (zip ''ABCDEFGHIJKLMNOPQRSTUVWXYZ'' ''abcdefghijklmnopqrstuvwxyz'') c of
        None \<Rightarrow> c
      | Some l \<Rightarrow> l)"

definition lower :: "string \<Rightarrow> string" where
  "lower s = map lower_char s"

text \<open>\<^verbatim>\<open>s.rfind(c)\<close>: the index of the last occurrence, or \<open>-1\<close>.\<close>

fun rfind :: "char \<Rightarrow> string \<Rightarrow> int" where
  "rfind c [] = - 1"
| "rfind c (x # xs) =
     (let r = rfind c xs
      in if 0 \<le> r then r + 1 else if x = c then 0 else - 1)"

text \<open>\<^verbatim>\<open>sep.join(xs)\<close> and \<^verbatim>\<open>s.split(sep)\<close> for a one-character separator.\<close>

fun join :: "char \<Rightarrow> string list \<Rightarrow> string" where
  "join c [] = []"
| "join c [x] = x"
| "join c (x # y # ys) = x @ c # join c (y # ys)"

fun split :: "char \<Rightarrow> string \<Rightarrow> string list" where
  "split c [] = [[]]"
| "split c (x # xs) =
     (if x = c then [] # split c xs
      else (case split c xs of
              [] \<Rightarrow> [[x]]
            | w # ws \<Rightarrow> (x # w) # ws))"

section \<open>Paths\<close>

text \<open>
  \<^verbatim>\<open>pathlib.Path\<close> with the POSIX flavour: an anchor (empty, \<^verbatim>\<open>/\<close> or \<^verbatim>\<open>//\<close>) and the
  list of components. Parsing a string drops empty components and \<^verbatim>\<open>.\<close>;
  \<^verbatim>\<open>str\<close> joins the components with \<^verbatim>\<open>/\<close> and gives \<^verbatim>\<open>.\<close> for the empty relative
  path. \<^verbatim>\<open>name\<close> is the last component, or the empty string.
  \<^verbatim>\<open>suffix\<close> is the part of the name from its last dot, when that dot is neither
  the first nor the last character of the name.
\<close>

datatype Path = Path (anchor: string) (parts: "string list")

definition mkPath :: "string \<Rightarrow> Path" where
  "mkPath s =
     Path (if take 2 s = ''//'' \<and> take 3 s \<noteq> ''///'' then ''//''
           else if take 1 s = ''/'' then ''/''
           else '''')
          (filter (\<lambda>p. p \<noteq> '''' \<and> p \<noteq> ''.'') (split slash s))"

definition str :: "Path \<Rightarrow> string" where
  "str p =
     (if anchor p = '''' \<and> parts p = [] then ''.''
      else anchor p @ join slash (parts p))"

definition name :: "Path \<Rightarrow> string" where
  "name p = (if parts p = [] then '''' else last (parts p))"

definition suffix :: "Path \<Rightarrow> string" where
  "suffix p =
     (let n = name p; i = rfind CHR ''.'' n
      in if 0 < i \<and> i < int (length n) - 1 then drop (nat i) n else '''')"

text \<open>\<^verbatim>\<open>p / n\<close> for one component \<open>n\<close>, as the directory walk builds its results.\<close>

definition joinpath :: "Path \<Rightarrow> string \<Rightarrow> Path" where
  "joinpath p n = Path (anchor p) (parts p @ [n])"

datatype error = ValueError

text \<open>\<^verbatim>\<open>p.relative_to(base)\<close> raises \<^verbatim>\<open>ValueError\<close> when \<open>base\<close> is not a prefix.\<close>

definition relative_to :: "Path \<Rightarrow> Path \<Rightarrow> error + Path" where
  "relative_to p base =
     (if anchor p = anchor base \<and> take (length (parts base)) (parts p) = parts base
      then Inr (Path '''' (drop (length (parts base)) (parts p)))
      else Inl ValueError)"

section \<open>The metadata resolver\<close>

text \<open>
  \<^verbatim>\<open>get_file_headers\<close> builds a dictionary from header names to values: a map
  \<^typ>\<open>string \<rightharpoonup> string\<close>. The table \<open>content_types\<close> is the dictionary literal of
  the source, in its order.
\<close>

type_synonym headers = "string \<rightharpoonup> string"

definition content_types :: "(string \<times> string) list" where
  "content_types =
     [(''.html'', ''text/html''),
      (''.css'', ''text/css''),
      (''.js'', ''application/javascript''),
      (''.json'', ''application/json''),
      (''.png'', ''image/png''),
      (''.jpg'', ''image/jpeg''),
      (''.jpeg'', ''image/jpeg''),
      (''.gif'', ''image/gif''),
      (''.svg'', ''image/svg+xml''),
      (''.ico'', ''image/x-icon''),
      (''.webp'', ''image/webp''),
      (''.txt'', ''text/plain''),
      (''.md'', ''text/markdown''),
      (''.xml'', ''application/xml''),
      (''.pdf'', ''application/pdf''),
      (''.zip'', ''application/zip''),
      (''.woff'', ''font/woff''),
      (''.woff2'', ''font/woff2''),
      (''.ttf'', ''font/ttf''),
      (''.eot'', ''application/vnd.ms-fontobject'')]"

definition get_file_headers :: "string \<Rightarrow> headers" where
  "get_file_headers file_path =
     (let headers = [''StorageClass'' \<mapsto> ''STANDARD''];
          ext = lower (suffix (mkPath file_path));
          headers = (case map_of content_types ext of
                       Some t \<Rightarrow> headers(''ContentType'' \<mapsto> t)
                     | None \<Rightarrow> headers);
          headers = (if name (mkPath file_path) = ''index.html''
                     then headers(''CacheControl'' \<mapsto> ''no-cache'')
                     else headers)
      in headers)"

section \<open>The environment: file system and storage client\<close>

text \<open>
  The file system is a parameter: a function from paths to what is found there. A
  directory lists its entries by name, in the order the operating system reports
  them. \<open>Special\<close> stands for what exists but is neither a regular file nor a
  directory (a socket, a device). Symbolic links are outside the model.
\<close>

datatype node = File | Special | Dir "(string \<times> node) list"

type_synonym filesystem = "Path \<Rightarrow> node option"

definition exists_path :: "filesystem \<Rightarrow> Path \<Rightarrow> bool" where
  "exists_path fs p = (case fs p of None \<Rightarrow> False | Some _ \<Rightarrow> True)"

definition is_file :: "filesystem \<Rightarrow> Path \<Rightarrow> bool" where
  "is_file fs p = (case fs p of Some File \<Rightarrow> True | _ \<Rightarrow> False)"

definition is_dir :: "filesystem \<Rightarrow> Path \<Rightarrow> bool" where
  "is_dir fs p = (case fs p of Some (Dir _) \<Rightarrow> True | _ \<Rightarrow> False)"

text \<open>
  \<^verbatim>\<open>dir_path.rglob('*')\<close> yields every entry below the directory, hidden ones too:
  the entries of the directory itself, then those of each subdirectory in turn. Each
  result is the directory's path extended by the entry's name; the walk hands the
  entry's kind along, which is what \<^verbatim>\<open>file_path.is_file()\<close> reads in the loop.
\<close>

fun walk :: "Path \<Rightarrow> node \<Rightarrow> (Path \<times> node) list" where
  "walk d (Dir es) =
     map (\<lambda>e. (joinpath d (fst e), snd e)) es
     @ concat (map (\<lambda>e. walk (joinpath d (fst e)) (snd e)) es)"
| "walk d File = []"
| "walk d Special = []"

definition rglob :: "filesystem \<Rightarrow> Path \<Rightarrow> (Path \<times> node) list" where
  "rglob fs dir_path = (case fs dir_path of None \<Rightarrow> [] | Some nd \<Rightarrow> walk dir_path nd)"

text \<open>
  The storage client is a parameter too. \<^verbatim>\<open>s3.upload_file(Filename, Bucket, Key,
  ExtraArgs)\<close> either returns or raises; \<open>s3 k r\<close> tells whether the call number \<open>k\<close>
  of the run (counting from 0), with request \<open>r\<close>, returns. Setting up the session
  and the client in the constructor is outside the model.
\<close>

record s3_request =
  Filename :: string
  Bucket :: string
  Key :: string
  ExtraArgs :: headers

type_synonym client = "nat \<Rightarrow> s3_request \<Rightarrow> bool"

definition bucket_name :: string where
  "bucket_name = ''image-browser''"

section \<open>State and trace\<close>

text \<open>
  The uploader object carries \<^verbatim>\<open>workers\<close>, \<^verbatim>\<open>uploaded_count\<close> and
  \<^verbatim>\<open>failed_count\<close>. The state adds the trace of the run, in the order things happen:
  one event for each printed message and one for each call of the storage client. The
  text of a message is not modelled, only which message it is and the values it shows;
  the elapsed time carries no value.
\<close>

datatype event =
    S3Upload s3_request
  | UploadOk int string string
  | UploadFailed int string
  | SourceNotFound Path
  | UnsupportedPathType Path
  | UploadError error
  | Elapsed
  | ExcludedSingle Path
  | WarnSingle Path
  | UploadingFile Path string
  | DirStart Path string bool int
  | ExcludedCount nat
  | WarnCount nat
  | WarnFile Path
  | WarnFooter
  | Found nat
  | NothingToUpload
  | ConcurrentMode
  | ConcurrentDone int int

record state =
  workers :: int
  uploaded_count :: int
  failed_count :: int
  trace :: "event list"

definition emit :: "event list \<Rightarrow> state \<Rightarrow> state" where
  "emit es s = s\<lparr>trace := trace s @ es\<rparr>"

fun requests :: "event list \<Rightarrow> s3_request list" where
  "requests [] = []"
| "requests (S3Upload r # es) = r # requests es"
| "requests (_ # es) = requests es"

section \<open>The uploader\<close>

subsection \<open>One upload: \<^verbatim>\<open>_upload_single_file\<close>\<close>

text \<open>
  The worker builds the extra arguments from the headers, calls the storage client
  and, holding the lock, increments one counter and prints one line. An exception of
  the call is caught here and gives \<open>False\<close>. The counters are touched only under
  the lock, so a worker's effect on the state is taken as one step.
\<close>

definition upload_single_file :: "client \<Rightarrow> Path \<Rightarrow> string \<Rightarrow> state \<Rightarrow> bool \<times> state" where
  "upload_single_file s3 file_path s3_key s =
     (let headers = get_file_headers (str file_path);
          extra_args = Map.empty;
          extra_args = (case headers ''ContentType'' of
                          Some v \<Rightarrow> extra_args(''ContentType'' \<mapsto> v)
                        | None \<Rightarrow> extra_args);
          extra_args = (case headers ''CacheControl'' of
                          Some v \<Rightarrow> extra_args(''CacheControl'' \<mapsto> v)
                        | None \<Rightarrow> extra_args);
          extra_args = (case headers ''StorageClass'' of
                          Some v \<Rightarrow> extra_args(''StorageClass'' \<mapsto> v)
                        | None \<Rightarrow> extra_args);
          req = \<lparr>Filename = str file_path, Bucket = bucket_name, Key = s3_key,
                 ExtraArgs = extra_args\<rparr>;
          returned = s3 (length (requests (trace s))) req;
          s = emit [S3Upload req] s
      in if returned then
           let s = s\<lparr>uploaded_count := uploaded_count s + 1\<rparr>;
               s = emit [UploadOk (uploaded_count s) (name file_path) s3_key] s
           in (True, s)
         else
           let s = s\<lparr>failed_count := failed_count s + 1\<rparr>;
               s = emit [UploadFailed (failed_count s) (name file_path)] s
           in (False, s))"

subsection \<open>The pool: \<^verbatim>\<open>_upload_concurrent\<close>\<close>

text \<open>
  \<^verbatim>\<open>ThreadPoolExecutor(max_workers=self.workers)\<close> raises \<^verbatim>\<open>ValueError\<close> when the
  bound is not positive. Otherwise every task is submitted; at most \<open>workers\<close> of the
  pending tasks, the earliest submitted, are running, and which of them finishes next
  is not determined by the program. The schedule \<open>sched\<close> makes that choice explicit:
  its next number, reduced modulo the number of running tasks, picks the task that
  completes. The pool is drained when no task is pending. A worker never raises, so
  the handler around \<^verbatim>\<open>future.result()\<close> is never entered.
\<close>

function drain :: "client \<Rightarrow> nat list \<Rightarrow> (Path \<times> string) list \<Rightarrow> state \<Rightarrow> state" where
  "drain s3 sched [] s = s"
| "drain s3 sched (t # ts) s =
     (let pending = t # ts;
          running = min (nat (workers s)) (length pending)
      in if running = 0 then s
         else
           let i = (case sched of [] \<Rightarrow> 0 | k # _ \<Rightarrow> k mod running);
               s = snd (upload_single_file s3 (fst (pending ! i)) (snd (pending ! i)) s)
           in drain s3 (tl sched) (take i pending @ drop (Suc i) pending) s)"
  by pat_completeness auto
termination
  apply (relation "measure (\<lambda>(s3, sched, tasks, s). length tasks)")
   apply simp
  apply (auto split: list.splits)
  subgoal premises prems for ts s k
  proof -
    let ?m = "min (nat (workers s)) (Suc (length ts))"
    from prems have "0 < ?m"
      by simp
    then have "k mod ?m < ?m"
      by (rule mod_less_divisor)
    also have "?m \<le> Suc (length ts)"
      by simp
    finally show ?thesis
      by arith
  qed
  done

definition upload_concurrent ::
  "client \<Rightarrow> nat list \<Rightarrow> (Path \<times> string) list \<Rightarrow> state \<Rightarrow> (error + bool) \<times> state" where
  "upload_concurrent s3 sched upload_tasks s =
     (let s = emit [ConcurrentMode] s
      in if workers s \<le> 0 then (Inl ValueError, s)
         else
           let s = drain s3 sched upload_tasks s;
               s = emit [ConcurrentDone (uploaded_count s) (failed_count s)] s
           in (Inr (failed_count s = 0), s))"

subsection \<open>A single file: \<^verbatim>\<open>_upload_single_file_sync\<close>\<close>

text \<open>
  The destination is a string, so the test for \<^verbatim>\<open>None\<close> has no branch here. Nothing
  in the body raises, so its handler is never entered.
\<close>

definition upload_single_file_sync :: "client \<Rightarrow> Path \<Rightarrow> string \<Rightarrow> state \<Rightarrow> bool \<times> state" where
  "upload_single_file_sync s3 file_path dst_path s =
     (if name file_path = ''.DS_Store'' then (False, emit [ExcludedSingle file_path] s)
      else
        let s = (if startswith (name file_path) CHR ''.''
                 then emit [WarnSingle file_path] s else s);
            s3_key = (if endswith dst_path slash \<or> dst_path = []
                      then (if dst_path \<noteq> [] then dst_path @ ''/'' @ name file_path
                            else name file_path)
                      else dst_path);
            s3_key = lstrip slash s3_key;
            s = emit [UploadingFile file_path s3_key] s
        in upload_single_file s3 file_path s3_key s)"

subsection \<open>A directory: \<^verbatim>\<open>_upload_directory\<close>\<close>

text \<open>
  The loop over the walk, with its three lists as accumulator. An exception of
  \<^verbatim>\<open>relative_to\<close> leaves the loop and the function.
\<close>

type_synonym collected = "(Path \<times> string) list \<times> Path list \<times> Path list"

fun collect :: "Path \<Rightarrow> string \<Rightarrow> bool \<Rightarrow> (Path \<times> node) list \<Rightarrow> collected \<Rightarrow> error + collected" where
  "collect dir_path dst_path include_root [] acc = Inr acc"
| "collect dir_path dst_path include_root ((file_path, nd) # rest)
     (upload_tasks, excluded_files, warning_files) =
     (if nd = File then
        if name file_path = ''.DS_Store''
        then collect dir_path dst_path include_root rest
               (upload_tasks, excluded_files @ [file_path], warning_files)
        else
          let warning_files = (if startswith (name file_path) CHR ''.''
                               then warning_files @ [file_path] else warning_files)
          in case (if include_root then Inr (str file_path)
                   else map_sum id str (relative_to file_path dir_path)) of
               Inl e \<Rightarrow> Inl e
             | Inr relative_path \<Rightarrow>
                 let s3_key = replace_char backslash slash (dst_path @ ''/'' @ relative_path);
                     s3_key = lstrip slash s3_key
                 in collect dir_path dst_path include_root rest
                      (upload_tasks @ [(file_path, s3_key)], excluded_files, warning_files)
      else collect dir_path dst_path include_root rest
             (upload_tasks, excluded_files, warning_files))"

definition upload_directory ::
  "client \<Rightarrow> nat list \<Rightarrow> filesystem \<Rightarrow> Path \<Rightarrow> string \<Rightarrow> bool \<Rightarrow> state
     \<Rightarrow> (error + bool) \<times> state" where
  "upload_directory s3 sched fs dir_path dst_path include_root s =
     (let s = emit [DirStart dir_path dst_path include_root (workers s)] s
      in case collect dir_path dst_path include_root (rglob fs dir_path) ([], [], []) of
           Inl e \<Rightarrow> (Inl e, s)
         | Inr (upload_tasks, excluded_files, warning_files) \<Rightarrow>
             let s = (if excluded_files \<noteq> []
                      then emit [ExcludedCount (length excluded_files)] s else s);
                 s = (if warning_files \<noteq> []
                      then emit (WarnCount (length warning_files)
                                 # map WarnFile warning_files @ [WarnFooter]) s
                      else s);
                 total_files = length upload_tasks;
                 s = emit [Found total_files] s
             in if total_files = 0 then (Inr True, emit [NothingToUpload] s)
                else if total_files = 1 then
                  let r = upload_single_file s3 (fst (upload_tasks ! 0))
                            (snd (upload_tasks ! 0)) s
                  in (Inr (fst r), snd r)
                else upload_concurrent s3 sched upload_tasks s)"

subsection \<open>The operation: \<^verbatim>\<open>upload\<close>\<close>

text \<open>
  The method of the uploader. A missing source returns before the timer is started;
  from there on the \<^verbatim>\<open>finally\<close> clause prints the elapsed time on every way out,
  after the handler of the \<^verbatim>\<open>try\<close> has turned an exception into \<open>False\<close>.
\<close>

definition uploader_upload ::
  "client \<Rightarrow> nat list \<Rightarrow> filesystem \<Rightarrow> string \<Rightarrow> string \<Rightarrow> bool \<Rightarrow> state \<Rightarrow> bool \<times> state" where
  "uploader_upload s3 sched fs src dst include_root s =
     (let src_path = mkPath src;
          dst_path = rstrip slash dst
      in if \<not> exists_path fs src_path then (False, emit [SourceNotFound src_path] s)
         else
           let r = (if is_file fs src_path
                    then (let r = upload_single_file_sync s3 src_path dst_path s
                          in (Inr (fst r), snd r))
                    else if is_dir fs src_path
                    then upload_directory s3 sched fs src_path dst_path include_root s
                    else (Inr False, emit [UnsupportedPathType src_path] s));
               r = (case fst r of
                      Inl e \<Rightarrow> (False, emit [UploadError e] (snd r))
                    | Inr b \<Rightarrow> (b, snd r))
           in (fst r, emit [Elapsed] (snd r)))"

text \<open>
  The function \<^verbatim>\<open>upload\<close> of the module makes a fresh uploader, with both counters
  at 0, and calls the method.
\<close>

definition init :: "int \<Rightarrow> state" where
  "init n = \<lparr>workers = n, uploaded_count = 0, failed_count = 0, trace = []\<rparr>"

definition upload ::
  "client \<Rightarrow> nat list \<Rightarrow> filesystem \<Rightarrow> string \<Rightarrow> string \<Rightarrow> bool \<Rightarrow> int \<Rightarrow> bool \<times> state" where
  "upload s3 sched fs src_path dst_path include_root n =
     uploader_upload s3 sched fs src_path dst_path include_root (init n)"

text \<open>The keys of the objects a run asked the storage client to write.\<close>

definition keys :: "state \<Rightarrow> string list" where
  "keys s = map Key (requests (trace s))"

section \<open>Vocabulary of the properties\<close>

text \<open>The extensions the metadata resolver is specified to know, without the dot.\<close>

definition known_extensions :: "string list" where
  "known_extensions =
     [''html'', ''css'', ''js'', ''json'', ''png'', ''jpg'', ''jpeg'', ''gif'', ''svg'', ''ico'',
      ''webp'', ''txt'', ''md'', ''xml'', ''pdf'', ''zip'', ''woff'', ''woff2'', ''ttf'', ''eot'']"

text \<open>Concrete environments for the examples: file systems and a client that never fails.\<close>

definition reliable :: client where
  "reliable k r = True"


definition report_fs :: filesystem where
  "report_fs p = (if p = mkPath ''report.pdf'' then Some File else None)"

definition dist_fs :: filesystem where
  "dist_fs p =
     (if p = mkPath ''dist'' \<or> p = mkPath ''build/dist''
      then Some (Dir [(''app.js'', File)]) else None)"

text \<open>
  What a run asked of the storage client and how the client answered: the file and
  key of each request, and for each request, by its number, whether the call returned.
\<close>

definition attempted :: "state \<Rightarrow> (string \<times> string) list" where
  "attempted s = map (\<lambda>r. (Filename r, Key r)) (requests (trace s))"

definition outcomes :: "client \<Rightarrow> s3_request list \<Rightarrow> bool list" where
  "outcomes s3 rs = map (\<lambda>kr. s3 (fst kr) (snd kr)) (enumerate 0 rs)"

definition task_request :: "Path \<times> string \<Rightarrow> string \<times> string" where
  "task_request t = (str (fst t), snd t)"

text \<open>The counters agree with the answers of the client to the requests made so far.\<close>

definition tally_ok :: "client \<Rightarrow> state \<Rightarrow> bool" where
  "tally_ok s3 s =
     (uploaded_count s = int (length (filter id (outcomes s3 (requests (trace s)))))
      \<and> failed_count s = int (length (filter Not (outcomes s3 (requests (trace s))))))"

text \<open>
  The three lists the directory loop builds, read off the walk: the regular files that
  are scheduled, those left out for their name, and the scheduled ones whose name
  starts with a dot.
\<close>

definition eligible :: "(Path \<times> node) list \<Rightarrow> Path list" where
  "eligible es =
     map fst (filter (\<lambda>e. snd e = File \<and> name (fst e) \<noteq> ''.DS_Store'') es)"

definition excluded :: "(Path \<times> node) list \<Rightarrow> Path list" where
  "excluded es =
     map fst (filter (\<lambda>e. snd e = File \<and> name (fst e) = ''.DS_Store'') es)"

definition warned :: "(Path \<times> node) list \<Rightarrow> Path list" where
  "warned es =
     map fst (filter (\<lambda>e. snd e = File \<and> name (fst e) \<noteq> ''.DS_Store''
                            \<and> startswith (name (fst e)) CHR ''.'') es)"

text \<open>
  The errors of scheduling, as conditions on the input: the source is missing; it is a
  single file with the excluded name; it is neither a file nor a directory; or it is a
  directory with at least two files to upload while the bound on the pool is not
  positive, so that no pool can be made.
\<close>

definition scheduling_error :: "filesystem \<Rightarrow> string \<Rightarrow> int \<Rightarrow> bool" where
  "scheduling_error fs src w =
     (\<not> exists_path fs (mkPath src)
      \<or> (is_file fs (mkPath src) \<and> name (mkPath src) = ''.DS_Store'')
      \<or> (\<not> is_file fs (mkPath src) \<and> \<not> is_dir fs (mkPath src))
      \<or> (is_dir fs (mkPath src) \<and> 2 \<le> length (eligible (rglob fs (mkPath src))) \<and> w \<le> 0))"

text \<open>
  What lies under a directory, told without the walk: \<open>lookup nd rel\<close> follows the
  names \<open>rel\<close> down from \<open>nd\<close>, and \<open>below d rel\<close> is the path of what is found
  there when \<open>nd\<close> is at \<open>d\<close>. In a proper directory tree no directory lists a name
  twice.
\<close>

fun lookup :: "node \<Rightarrow> string list \<Rightarrow> node option" where
  "lookup nd [] = Some nd"
| "lookup (Dir es) (n # ns) = (case map_of es n of None \<Rightarrow> None | Some x \<Rightarrow> lookup x ns)"
| "lookup File (n # ns) = None"
| "lookup Special (n # ns) = None"

fun distinct_names :: "node \<Rightarrow> bool" where
  "distinct_names (Dir es) = (distinct (map fst es) \<and> list_all (\<lambda>e. distinct_names (snd e)) es)"
| "distinct_names File = True"
| "distinct_names Special = True"

definition below :: "Path \<Rightarrow> string list \<Rightarrow> Path" where
  "below d rel = Path (anchor d) (parts d @ rel)"

text \<open>More environments for the examples.\<close>

definition site_tree :: node where
  "site_tree =
     Dir [(''a.html'', File), (''b.png'', File), (''.DS_Store'', File),
          (''conf'', Dir [(''.env'', File)])]"

definition site_fs :: filesystem where
  "site_fs p = (if p = mkPath ''site'' then Some site_tree else None)"

definition junk_fs :: filesystem where
  "junk_fs p =
     (if p = mkPath ''junk'' then Some (Dir [(''.DS_Store'', File), (''empty'', Dir [])])
      else if p = mkPath ''.DS_Store'' then Some File
      else None)"

text \<open>A client whose every call raises.\<close>

definition failing :: client where
  "failing k r = False"

text \<open>Five tasks and a client whose calls number 1 and 3 raise.\<close>

definition five_tasks :: "(Path \<times> string) list" where
  "five_tasks =
     [(mkPath ''d/a'', ''a''), (mkPath ''d/b'', ''b''), (mkPath ''d/c'', ''c''),
      (mkPath ''d/d'', ''d''), (mkPath ''d/e'', ''e'')]"

definition flaky :: client where
  "flaky k r = (k \<noteq> 1 \<and> k \<noteq> 3)"

lemmas string_defs =
  slash_def backslash_def lstrip_def rstrip_def endswith_def startswith_def replace_char_def
  lower_def lower_char_def

lemmas path_defs =
  mkPath_def str_def name_def suffix_def joinpath_def relative_to_def

lemmas run_defs =
  upload_def uploader_upload_def init_def upload_single_file_sync_def upload_single_file_def
  upload_directory_def upload_concurrent_def rglob_def exists_path_def is_file_def is_dir_def
  emit_def keys_def Let_def

section \<open>The metadata resolver: claims C5 and C9\<close>

lemma content_type_lookup:
  "get_file_headers p ''ContentType'' = map_of content_types (lower (suffix (mkPath p)))"
  by (simp add: get_file_headers_def Let_def split: option.splits)

lemma dom_content_types:
  "(map_of content_types e = None) = (e \<notin> set (map ((#) CHR ''.'') known_extensions))"
  unfolding map_of_eq_None_iff by (simp add: content_types_def known_extensions_def)

text \<open>
  Claim C5. For every file path the resolver returns headers in which the storage class
  is the fixed tier \<^verbatim>\<open>STANDARD\<close>; the content type is the table's entry when the
  extension (read in lower case, with its dot) is one of html, css, js, json, png, jpg,
  jpeg, gif, svg, ico, webp, txt, md, xml, pdf, zip, woff, woff2, ttf, eot, and is unset
  for every other extension; the cache control is \<^verbatim>\<open>no-cache\<close> exactly when the name
  is \<^verbatim>\<open>index.html\<close> and unset otherwise. The resolver is a total function: there
  is no error case. For \<^verbatim>\<open>report.pdf\<close> the content type is \<^verbatim>\<open>application/pdf\<close>.
\<close>

theorem metadata_resolver:
  "get_file_headers p ''StorageClass'' = Some ''STANDARD''
   \<and> get_file_headers p ''ContentType'' =
       (if lower (suffix (mkPath p)) \<in> set (map ((#) CHR ''.'') known_extensions)
        then map_of content_types (lower (suffix (mkPath p))) else None)
   \<and> (get_file_headers p ''ContentType'' = None) =
       (lower (suffix (mkPath p)) \<notin> set (map ((#) CHR ''.'') known_extensions))
   \<and> get_file_headers p ''CacheControl'' =
       (if name (mkPath p) = ''index.html'' then Some ''no-cache'' else None)
   \<and> get_file_headers ''report.pdf'' ''ContentType'' = Some ''application/pdf''"
proof -
  have sc: "get_file_headers p ''StorageClass'' = Some ''STANDARD''"
    by (simp add: get_file_headers_def Let_def split: option.splits)
  have cc: "get_file_headers p ''CacheControl'' =
       (if name (mkPath p) = ''index.html'' then Some ''no-cache'' else None)"
    by (simp add: get_file_headers_def Let_def split: option.splits)
  have ct: "get_file_headers p ''ContentType'' =
       (if lower (suffix (mkPath p)) \<in> set (map ((#) CHR ''.'') known_extensions)
        then map_of content_types (lower (suffix (mkPath p))) else None)"
    unfolding content_type_lookup
    using dom_content_types [of "lower (suffix (mkPath p))"] by auto
  have un: "(get_file_headers p ''ContentType'' = None) =
       (lower (suffix (mkPath p)) \<notin> set (map ((#) CHR ''.'') known_extensions))"
    unfolding content_type_lookup by (rule dom_content_types)
  have ex: "get_file_headers ''report.pdf'' ''ContentType'' = Some ''application/pdf''"
    by (simp add: get_file_headers_def content_types_def string_defs path_defs Let_def)
  from sc ct un cc ex show ?thesis by blast
qed

text \<open>
  Claim C9. The content type depends on the extension only up to case: two paths whose
  suffixes agree in lower case get the same content type, and \<^verbatim>\<open>photo.PNG\<close> gets
  \<^verbatim>\<open>image/png\<close>. The cache control is set exactly when the name equals
  \<^verbatim>\<open>index.html\<close> as written, so \<^verbatim>\<open>INDEX.HTML\<close> gets none (while its content type
  is still \<^verbatim>\<open>text/html\<close>).
\<close>

theorem content_type_case_insensitive:
  "(lower (suffix (mkPath p)) = lower (suffix (mkPath q))
      \<longrightarrow> get_file_headers p ''ContentType'' = get_file_headers q ''ContentType'')
   \<and> get_file_headers ''photo.PNG'' ''ContentType'' = Some ''image/png''
   \<and> ((get_file_headers p ''CacheControl'' \<noteq> None) = (name (mkPath p) = ''index.html''))
   \<and> get_file_headers ''INDEX.HTML'' ''CacheControl'' = None
   \<and> get_file_headers ''INDEX.HTML'' ''ContentType'' = Some ''text/html''"
proof -
  have a: "lower (suffix (mkPath p)) = lower (suffix (mkPath q))
      \<longrightarrow> get_file_headers p ''ContentType'' = get_file_headers q ''ContentType''"
    by (simp add: content_type_lookup)
  have b: "get_file_headers ''photo.PNG'' ''ContentType'' = Some ''image/png''"
    by (simp add: get_file_headers_def content_types_def string_defs path_defs Let_def)
  have c: "(get_file_headers p ''CacheControl'' \<noteq> None) = (name (mkPath p) = ''index.html'')"
    by (simp add: get_file_headers_def Let_def split: option.splits)
  have d: "get_file_headers ''INDEX.HTML'' ''CacheControl'' = None"
    by (simp add: get_file_headers_def content_types_def string_defs path_defs Let_def)
  have e: "get_file_headers ''INDEX.HTML'' ''ContentType'' = Some ''text/html''"
    by (simp add: get_file_headers_def content_types_def string_defs path_defs Let_def)
  from a b c d e show ?thesis by blast
qed

theorem content_type_case_insensitive_witness:
  "lower (suffix (mkPath ''a/Logo.Png'')) = lower (suffix (mkPath ''b/icon.pNG''))
   \<and> get_file_headers ''a/Logo.Png'' ''ContentType''
       = get_file_headers ''b/icon.pNG'' ''ContentType''
   \<and> get_file_headers ''a/Logo.Png'' ''ContentType'' = Some ''image/png''"
proof -
  have h: "lower (suffix (mkPath ''a/Logo.Png'')) = lower (suffix (mkPath ''b/icon.pNG''))"
    by (simp add: string_defs path_defs)
  have v: "get_file_headers ''a/Logo.Png'' ''ContentType'' = Some ''image/png''"
    by (simp add: get_file_headers_def content_types_def string_defs path_defs Let_def)
  from content_type_case_insensitive [of "''a/Logo.Png''" "''b/icon.pNG''"] h v
  show ?thesis by simp
qed

section \<open>Keys of a single file: claims C1 and C7\<close>

text \<open>
  Claim C1, evaluated. The claim expects the key \<^verbatim>\<open>docs/report.pdf\<close> for the file
  \<^verbatim>\<open>report.pdf\<close> and the destination \<^verbatim>\<open>/docs/\<close>. The operation strips the
  trailing slash first, so the destination no longer ends in a slash when the key is
  chosen and is taken verbatim: the key is \<^verbatim>\<open>docs\<close>, whatever the client, the
  schedule, the mode and the pool size. The same holds for \<^verbatim>\<open>/docs\<close>, the
  destination that the usage text of the program calls a directory. Called on its own
  with \<^verbatim>\<open>/docs/\<close>, the single-file function joins with a second slash and gives
  \<^verbatim>\<open>docs//report.pdf\<close>.
\<close>

theorem single_file_trailing_slash_key:
  "keys (snd (upload s3 sched report_fs ''report.pdf'' ''/docs/'' include_root w)) = [''docs'']
   \<and> keys (snd (upload s3 sched report_fs ''report.pdf'' ''/docs'' include_root w)) = [''docs'']
   \<and> keys (snd (upload_single_file_sync s3 (mkPath ''report.pdf'') ''/docs/'' (init w)))
       = [''docs//report.pdf'']"
  by (simp add: run_defs report_fs_def string_defs path_defs)

text \<open>
  Claim C7, evaluated. In single-file mode a backslash of the destination stays in the
  key: for the destination \<^verbatim>\<open>docs\report.pdf\<close> the key is that very string. Only the
  directory mode replaces backslashes.
\<close>

theorem single_file_key_keeps_backslash:
  "keys (snd (upload s3 sched report_fs ''report.pdf''
                (''docs'' @ [backslash] @ ''report.pdf'') include_root w))
     = [''docs'' @ [backslash] @ ''report.pdf'']
   \<and> backslash \<in> set (''docs'' @ [backslash] @ ''report.pdf'')"
  by (simp add: run_defs report_fs_def string_defs path_defs)

section \<open>Keys of a whole tree: claim C2\<close>

text \<open>
  Claim C2, evaluated. With \<open>include_root\<close> the key is the destination joined to the
  path of the file as the walk gives it, which starts with the source path as it was
  written. For the source \<^verbatim>\<open>dist\<close> that is the expected \<^verbatim>\<open>v1.0.0/dist/app.js\<close>; for
  the source \<^verbatim>\<open>build/dist\<close> the key is \<^verbatim>\<open>v1.0.0/build/dist/app.js\<close>, not the path
  relative to the parent of the source, \<^verbatim>\<open>v1.0.0/dist/app.js\<close>.
\<close>

theorem whole_tree_key_keeps_source_path:
  "keys (snd (upload s3 sched dist_fs ''dist'' ''/v1.0.0'' True w)) = [''v1.0.0/dist/app.js'']
   \<and> keys (snd (upload s3 sched dist_fs ''build/dist'' ''/v1.0.0'' True w))
       = [''v1.0.0/build/dist/app.js'']"
  by (simp add: run_defs dist_fs_def string_defs path_defs)

section \<open>Elapsed time: claim C8\<close>




section \<open>Trailing slashes of the destination: claim C10\<close>

lemma dropWhile_replicate_append:
  "dropWhile (\<lambda>x. x = c) (replicate n c @ xs) = dropWhile (\<lambda>x. x = c) xs"
  by (induction n) simp_all

lemma rstrip_trailing: "rstrip c (d @ replicate n c) = rstrip c d"
  by (simp add: rstrip_def dropWhile_replicate_append)

text \<open>
  Claim C10. Two destinations that differ only in trailing slashes, that is \<open>d\<close>
  followed by \<open>n\<close> slashes and \<open>d\<close> followed by \<open>m\<close> slashes, give the same run: the
  same result, the same counters and the same trace, hence the same keys, for every
  source, mode, client, schedule and pool size.
\<close>

theorem trailing_slashes_irrelevant:
  "upload s3 sched fs src (d @ replicate n slash) include_root w
   = upload s3 sched fs src (d @ replicate m slash) include_root w"
  by (simp add: upload_def uploader_upload_def rstrip_trailing)

section \<open>The tally: claim C4\<close>

lemma requests_append: "requests (xs @ ys) = requests xs @ requests ys"
  by (induction xs rule: requests.induct) simp_all

lemma outcomes_snoc:
  "outcomes s3 (rs @ [r]) = outcomes s3 rs @ [s3 (length rs) r]"
  by (simp add: outcomes_def enumerate_append_eq)

lemma length_outcomes: "length (outcomes s3 rs) = length rs"
  by (simp add: outcomes_def)

lemma worker_workers: "workers (snd (upload_single_file s3 p k s)) = workers s"
  by (simp add: upload_single_file_def emit_def Let_def)

lemma worker_requests:
  "\<exists>r. requests (trace (snd (upload_single_file s3 p k s))) = requests (trace s) @ [r]
       \<and> Filename r = str p \<and> Key r = k
       \<and> fst (upload_single_file s3 p k s) = s3 (length (requests (trace s))) r
       \<and> uploaded_count (snd (upload_single_file s3 p k s))
           = uploaded_count s + (if s3 (length (requests (trace s))) r then 1 else 0)
       \<and> failed_count (snd (upload_single_file s3 p k s))
           = failed_count s + (if s3 (length (requests (trace s))) r then 0 else 1)"
  by (simp add: upload_single_file_def emit_def Let_def requests_append)

lemma worker_attempted:
  "attempted (snd (upload_single_file s3 p k s)) = attempted s @ [(str p, k)]"
  using worker_requests [of s3 p k s] by (auto simp: attempted_def)

lemma worker_sum:
  "uploaded_count (snd (upload_single_file s3 p k s)) + failed_count (snd (upload_single_file s3 p k s))
     = uploaded_count s + failed_count s + 1"
  using worker_requests [of s3 p k s] by auto

lemma worker_tally: "tally_ok s3 s \<Longrightarrow> tally_ok s3 (snd (upload_single_file s3 p k s))"
  using worker_requests [of s3 p k s] by (auto simp: tally_ok_def outcomes_snoc)

lemma worker_result:
  "tally_ok s3 s \<Longrightarrow> fst (upload_single_file s3 p k s) = 
     (failed_count (snd (upload_single_file s3 p k s)) = failed_count s)"
  using worker_requests [of s3 p k s] by auto

lemma mset_remove_nth:
  "i < length xs \<Longrightarrow> mset (take i xs @ drop (Suc i) xs) + {#xs ! i#} = mset xs"
  by (metis add_mset_add_single append_take_drop_id id_take_nth_drop mset.simps(2) mset_append union_mset_add_mset_right)

lemma drain_step:
  assumes "0 < workers s"
  shows "\<exists>i. i < length (t # ts) \<and>
     drain s3 sched (t # ts) s
       = drain s3 (tl sched) (take i (t # ts) @ drop (Suc i) (t # ts))
           (snd (upload_single_file s3 (fst ((t # ts) ! i)) (snd ((t # ts) ! i)) s))"
proof -
  define running where "running = min (nat (workers s)) (length (t # ts))"
  define i where "i = (case sched of [] \<Rightarrow> 0 | k # _ \<Rightarrow> k mod running)"
  from assms have pos: "0 < running"
    by (simp add: running_def)
  have "i < running"
  proof (cases sched)
    case Nil
    with pos show ?thesis by (simp add: i_def)
  next
    case (Cons k ks)
    have "k mod running < running"
      using pos by (rule mod_less_divisor)
    with Cons show ?thesis by (simp add: i_def)
  qed
  also have "running \<le> length (t # ts)"
    by (simp add: running_def)
  finally have i: "i < length (t # ts)" .
  have "drain s3 sched (t # ts) s
       = drain s3 (tl sched) (take i (t # ts) @ drop (Suc i) (t # ts))
           (snd (upload_single_file s3 (fst ((t # ts) ! i)) (snd ((t # ts) ! i)) s))"
    using pos unfolding i_def running_def by (simp add: Let_def del: drain.simps(2) add: drain.simps(2) [of s3 sched t ts s])
  with i show ?thesis by blast
qed

lemma drain_effect:
  "0 < workers s \<Longrightarrow>
     workers (drain s3 sched tasks s) = workers s
     \<and> uploaded_count (drain s3 sched tasks s) + failed_count (drain s3 sched tasks s)
         = uploaded_count s + failed_count s + int (length tasks)
     \<and> mset (attempted (drain s3 sched tasks s))
         = mset (attempted s) + mset (map task_request tasks)
     \<and> (tally_ok s3 s \<longrightarrow> tally_ok s3 (drain s3 sched tasks s))"
proof (induction tasks arbitrary: s sched rule: length_induct)
  case (1 tasks)
  show ?case
  proof (cases tasks)
    case Nil
    then show ?thesis by simp
  next
    case (Cons t ts)
    from drain_step [OF "1.prems", of t ts s3 sched] obtain i where
      i: "i < length (t # ts)" and
      step: "drain s3 sched (t # ts) s
       = drain s3 (tl sched) (take i (t # ts) @ drop (Suc i) (t # ts))
           (snd (upload_single_file s3 (fst ((t # ts) ! i)) (snd ((t # ts) ! i)) s))"
      by blast
    define rest where "rest = take i (t # ts) @ drop (Suc i) (t # ts)"
    define p where "p = (t # ts) ! i"
    define s1 where "s1 = snd (upload_single_file s3 (fst p) (snd p) s)"
    define s2 where "s2 = drain s3 (tl sched) rest s1"
    have step': "drain s3 sched tasks s = s2"
      using step Cons by (simp add: s2_def s1_def p_def rest_def)
    have len: "Suc (length rest) = length tasks"
      using i Cons by (simp add: rest_def)
    then have shorter: "length rest < length tasks"
      by simp
    have w1: "workers s1 = workers s"
      by (simp add: s1_def worker_workers)
    then have w1pos: "0 < workers s1"
      using "1.prems" by simp
    from "1.IH" shorter w1pos have IH:
      "workers s2 = workers s1
       \<and> uploaded_count s2 + failed_count s2
           = uploaded_count s1 + failed_count s1 + int (length rest)
       \<and> mset (attempted s2) = mset (attempted s1) + mset (map task_request rest)
       \<and> (tally_ok s3 s1 \<longrightarrow> tally_ok s3 s2)"
      unfolding s2_def by blast
    have sum1: "uploaded_count s1 + failed_count s1 = uploaded_count s + failed_count s + 1"
      unfolding s1_def by (rule worker_sum)
    have att1: "mset (attempted s1) = mset (attempted s) + {#task_request p#}"
      by (simp add: s1_def worker_attempted task_request_def)
    have "mset rest + {#p#} = mset tasks"
      unfolding rest_def p_def Cons by (rule mset_remove_nth [OF i])
    then have "image_mset task_request (mset rest + {#p#}) = image_mset task_request (mset tasks)"
      by simp
    then have ms: "mset (map task_request rest) + {#task_request p#} = mset (map task_request tasks)"
      by simp
    have tal1: "tally_ok s3 s \<longrightarrow> tally_ok s3 s1"
      unfolding s1_def by (simp add: worker_tally)
    have a: "workers s2 = workers s"
      using IH w1 by simp
    have b: "uploaded_count s2 + failed_count s2
         = uploaded_count s + failed_count s + int (length tasks)"
      using IH sum1 len by simp
    have c: "mset (attempted s2) = mset (attempted s) + mset (map task_request tasks)"
      using IH att1 ms by (simp add: add.assoc add.commute)
    have d: "tally_ok s3 s \<longrightarrow> tally_ok s3 s2"
      using IH tal1 by blast
    from a b c d show ?thesis
      unfolding step' by blast
  qed
qed

section \<open>The walk and the task list\<close>

lemma below_Nil: "below d [] = d"
  by (simp add: below_def)

lemma below_joinpath: "below (joinpath d n) rel = below d (n # rel)"
  by (simp add: below_def joinpath_def)

lemma joinpath_below: "joinpath d n = below d [n]"
  by (simp add: below_def joinpath_def)

lemma below_inject: "(below d rel = below d rel') = (rel = rel')"
  by (simp add: below_def)

lemma name_below: "rel \<noteq> [] \<Longrightarrow> name (below d rel) = last rel"
  by (simp add: below_def name_def)

lemma walk_sound:
  "(p, x) \<in> set (walk d nd) \<Longrightarrow> \<exists>rel. rel \<noteq> [] \<and> p = below d rel"
proof (induction d nd arbitrary: p x rule: walk.induct)
  case (1 d es)
  from "1.prems" consider
    (direct) e where "e \<in> set es" "p = joinpath d (fst e)"
    | (nested) e where "e \<in> set es" "(p, x) \<in> set (walk (joinpath d (fst e)) (snd e))"
    by auto
  then show ?case
  proof cases
    case direct
    then show ?thesis
      by (auto simp: joinpath_below)
  next
    case nested
    from "1.IH" [OF nested] obtain rel where "rel \<noteq> []" "p = below (joinpath d (fst e)) rel"
      by blast
    then have "p = below d (fst e # rel)"
      by (simp add: below_joinpath)
    then show ?thesis
      by blast
  qed
qed simp_all

lemma relative_to_below:
  "relative_to (below d rel) d = Inr (Path [] rel)"
  by (simp add: relative_to_def below_def)

lemma collect_result:
  "(\<And>e. e \<in> set es \<Longrightarrow> \<exists>rel. fst e = below d rel) \<Longrightarrow>
   \<exists>keyed. collect d dst include_root es (T, E, W)
       = Inr (T @ keyed, E @ excluded es, W @ warned es)
     \<and> map fst keyed = eligible es"
proof (induction es arbitrary: T E W)
  case Nil
  then show ?case
    by (simp add: eligible_def excluded_def warned_def)
next
  case (Cons e es)
  obtain file_path nd where e: "e = (file_path, nd)"
    by (cases e)
  from Cons.prems [of e] obtain rel where rel: "file_path = below d rel"
    by (auto simp: e)
  have rest: "\<And>e'. e' \<in> set es \<Longrightarrow> \<exists>rel. fst e' = below d rel"
    using Cons.prems by simp
  show ?case
  proof (cases "nd = File")
    case False
    with Cons.IH [OF rest, of T E W] show ?thesis
      by (simp add: e eligible_def excluded_def warned_def)
  next
    case True
    show ?thesis
    proof (cases "name file_path = ''.DS_Store''")
      case True
      with \<open>nd = File\<close> Cons.IH [OF rest, of T "E @ [file_path]" W] show ?thesis
        by (simp add: e eligible_def excluded_def warned_def)
    next
      case False
      define W' where "W' = (if startswith (name file_path) CHR ''.'' then W @ [file_path] else W)"
      define relative_path where
        "relative_path = (if include_root then str file_path else str (Path [] rel))"
      define s3_key where
        "s3_key = lstrip slash (replace_char backslash slash (dst @ ''/'' @ relative_path))"
      have step: "collect d dst include_root (e # es) (T, E, W)
          = collect d dst include_root es (T @ [(file_path, s3_key)], E, W')"
        using False \<open>nd = File\<close>
        by (simp add: e rel relative_to_below W'_def relative_path_def s3_key_def Let_def)
      from Cons.IH [OF rest, of "T @ [(file_path, s3_key)]" E W'] obtain keyed where
        k: "collect d dst include_root es (T @ [(file_path, s3_key)], E, W')
              = Inr ((T @ [(file_path, s3_key)]) @ keyed, E @ excluded es, W' @ warned es)"
          "map fst keyed = eligible es"
        by blast
      have el: "eligible (e # es) = file_path # eligible es"
        using False \<open>nd = File\<close> by (simp add: e eligible_def)
      have ex: "excluded (e # es) = excluded es"
        using False \<open>nd = File\<close> by (simp add: e excluded_def)
      have wa: "W' @ warned es = W @ warned (e # es)"
        using False \<open>nd = File\<close> by (simp add: e warned_def W'_def)
      show ?thesis
        unfolding step k(1) el ex wa using k(2)
        by (intro exI [of _ "(file_path, s3_key) # keyed"]) simp
    qed
  qed
qed

lemma collect_rglob:
  "\<exists>tasks. collect d dst include_root (rglob fs d) ([], [], [])
       = Inr (tasks, excluded (rglob fs d), warned (rglob fs d))
     \<and> map fst tasks = eligible (rglob fs d)"
proof -
  have "\<And>e. e \<in> set (rglob fs d) \<Longrightarrow> \<exists>rel. fst e = below d rel"
  proof -
    fix e assume "e \<in> set (rglob fs d)"
    then obtain nd where "(fst e, snd e) \<in> set (walk d nd)"
      by (auto simp: rglob_def split: option.splits)
    from walk_sound [OF this] show "\<exists>rel. fst e = below d rel"
      by blast
  qed
  from collect_result [OF this, where T = "[]" and E = "[]" and W = "[]"
      and dst = dst and include_root = include_root] show ?thesis
    by simp
qed

lemma emit_emit: "emit b (emit a s) = emit (a @ b) s"
  by (simp add: emit_def)

lemma emit_Nil: "emit [] s = s"
  by (simp add: emit_def)

lemma emit_fields:
  "workers (emit es s) = workers s"
  "uploaded_count (emit es s) = uploaded_count s"
  "failed_count (emit es s) = failed_count s"
  "trace (emit es s) = trace s @ es"
  by (simp_all add: emit_def)

lemma requests_WarnFile: "requests (map WarnFile ps) = []"
  by (induction ps) simp_all

lemma upload_directory_unfold:
  "\<exists>tasks pre.
     map fst tasks = eligible (rglob fs d)
     \<and> collect d dst include_root (rglob fs d) ([], [], [])
         = Inr (tasks, excluded (rglob fs d), warned (rglob fs d))
     \<and> requests pre = []
     \<and> set (map WarnFile (warned (rglob fs d))) \<subseteq> set pre
     \<and> (excluded (rglob fs d) = [] \<or> ExcludedCount (length (excluded (rglob fs d))) \<in> set pre)
     \<and> upload_directory s3 sched fs d dst include_root s =
         (if tasks = [] then (Inr True, emit (pre @ [NothingToUpload]) s)
          else if length tasks = 1 then
            (Inr (fst (upload_single_file s3 (fst (tasks ! 0)) (snd (tasks ! 0)) (emit pre s))),
             snd (upload_single_file s3 (fst (tasks ! 0)) (snd (tasks ! 0)) (emit pre s)))
          else upload_concurrent s3 sched tasks (emit pre s))"
proof -
  from collect_rglob [of d dst include_root fs] obtain tasks where
    c: "collect d dst include_root (rglob fs d) ([], [], [])
          = Inr (tasks, excluded (rglob fs d), warned (rglob fs d))"
    and t: "map fst tasks = eligible (rglob fs d)"
    by blast
  define ex where "ex = excluded (rglob fs d)"
  define wa where "wa = warned (rglob fs d)"
  define pre where "pre =
     [DirStart d dst include_root (workers s)]
     @ (if ex \<noteq> [] then [ExcludedCount (length ex)] else [])
     @ (if wa \<noteq> [] then WarnCount (length wa) # map WarnFile wa @ [WarnFooter] else [])
     @ [Found (length tasks)]"
  have q: "requests pre = []"
    by (simp add: pre_def requests_append requests_WarnFile)
  have w: "set (map WarnFile wa) \<subseteq> set pre"
    by (auto simp: pre_def)
  have e: "ex = [] \<or> ExcludedCount (length ex) \<in> set pre"
    by (simp add: pre_def)
  have u: "upload_directory s3 sched fs d dst include_root s =
         (if tasks = [] then (Inr True, emit (pre @ [NothingToUpload]) s)
          else if length tasks = 1 then
            (Inr (fst (upload_single_file s3 (fst (tasks ! 0)) (snd (tasks ! 0)) (emit pre s))),
             snd (upload_single_file s3 (fst (tasks ! 0)) (snd (tasks ! 0)) (emit pre s)))
          else upload_concurrent s3 sched tasks (emit pre s))"
    unfolding upload_directory_def c [folded ex_def wa_def]
    by (simp add: Let_def emit_emit emit_fields pre_def)
  from t c q w e u show ?thesis
    unfolding ex_def wa_def by blast
qed

section \<open>Effects of the pool, a single file and a directory\<close>

lemma tally_sum:
  "tally_ok s3 s \<Longrightarrow> uploaded_count s + failed_count s = int (length (attempted s))"
proof -
  assume t: "tally_ok s3 s"
  have "length (filter id (outcomes s3 (requests (trace s))))
      + length (filter Not (outcomes s3 (requests (trace s))))
      = length (outcomes s3 (requests (trace s)))"
    using sum_length_filter_compl [of id "outcomes s3 (requests (trace s))"]
    by (simp add: comp_def)
  with t show ?thesis
    by (simp add: tally_ok_def attempted_def length_outcomes)
qed

lemma emit_quiet:
  "requests es = [] \<Longrightarrow> attempted (emit es s) = attempted s"
  "requests es = [] \<Longrightarrow> tally_ok s3 (emit es s) = tally_ok s3 s"
  by (simp_all add: attempted_def tally_ok_def emit_fields requests_append)

lemma init_tally: "tally_ok s3 (init w)"
  by (simp add: tally_ok_def init_def outcomes_def)

lemma concurrent_effect:
  "0 < workers s \<Longrightarrow>
     fst (upload_concurrent s3 sched tasks s)
       = Inr (failed_count (snd (upload_concurrent s3 sched tasks s)) = 0)
     \<and> workers (snd (upload_concurrent s3 sched tasks s)) = workers s
     \<and> uploaded_count (snd (upload_concurrent s3 sched tasks s))
         + failed_count (snd (upload_concurrent s3 sched tasks s))
         = uploaded_count s + failed_count s + int (length tasks)
     \<and> mset (attempted (snd (upload_concurrent s3 sched tasks s)))
         = mset (attempted s) + mset (map task_request tasks)
     \<and> (tally_ok s3 s \<longrightarrow> tally_ok s3 (snd (upload_concurrent s3 sched tasks s)))"
proof -
  assume w: "0 < workers s"
  define s1 where "s1 = emit [ConcurrentMode] s"
  define s2 where "s2 = drain s3 sched tasks s1"
  define s3' where "s3' = emit [ConcurrentDone (uploaded_count s2) (failed_count s2)] s2"
  have w1: "0 < workers s1"
    using w by (simp add: s1_def emit_fields)
  have r: "upload_concurrent s3 sched tasks s = (Inr (failed_count s3' = 0), s3')"
    using w by (simp add: upload_concurrent_def Let_def s1_def s2_def s3'_def emit_fields)
  note d = drain_effect [OF w1, of s3 sched tasks, folded s2_def]
  have a1: "attempted s1 = attempted s" and t1: "tally_ok s3 s1 = tally_ok s3 s"
    by (simp_all add: s1_def emit_quiet)
  have a3: "attempted s3' = attempted s2" and t3: "tally_ok s3 s3' = tally_ok s3 s2"
    by (simp_all add: s3'_def emit_quiet)
  have f: "workers s3' = workers s2" "uploaded_count s3' = uploaded_count s2"
    "failed_count s3' = failed_count s2"
    by (simp_all add: s3'_def emit_fields)
  have g: "workers s1 = workers s" "uploaded_count s1 = uploaded_count s"
    "failed_count s1 = failed_count s"
    by (simp_all add: s1_def emit_fields)
  show ?thesis
    unfolding r using d by (simp add: a1 t1 a3 t3 f g)
qed

lemma concurrent_no_pool:
  "workers s \<le> 0 \<Longrightarrow>
     upload_concurrent s3 sched tasks s = (Inl ValueError, emit [ConcurrentMode] s)"
  by (simp add: upload_concurrent_def Let_def emit_fields)

lemma sync_effect:
  assumes "tally_ok s3 s" and "failed_count s = 0"
    and "upload_single_file_sync s3 p dst s = (b, s')"
  shows "tally_ok s3 s'"
    and "b = (failed_count s' = 0 \<and> name p \<noteq> ''.DS_Store'')"
    and "name p = ''.DS_Store'' \<Longrightarrow> attempted s' = attempted s"
proof -
  show "name p = ''.DS_Store'' \<Longrightarrow> attempted s' = attempted s"
    using assms(3) by (auto simp: upload_single_file_sync_def emit_quiet)
  show "tally_ok s3 s'" and "b = (failed_count s' = 0 \<and> name p \<noteq> ''.DS_Store'')"
  proof (atomize (full), cases "name p = ''.DS_Store''")
    case True
    with assms show "tally_ok s3 s' \<and> b = (failed_count s' = 0 \<and> name p \<noteq> ''.DS_Store'')"
      by (auto simp: upload_single_file_sync_def emit_quiet emit_fields)
  next
    case False
    define s1 where "s1 = (if startswith (name p) CHR ''.'' then emit [WarnSingle p] s else s)"
    define k where "k = lstrip slash (if endswith dst slash \<or> dst = []
                      then (if dst \<noteq> [] then dst @ ''/'' @ name p else name p) else dst)"
    define s2 where "s2 = emit [UploadingFile p k] s1"
    have r: "upload_single_file_sync s3 p dst s = upload_single_file s3 p k s2"
      using False by (simp add: upload_single_file_sync_def Let_def s1_def k_def s2_def)
    have t2: "tally_ok s3 s2" and f2: "failed_count s2 = 0"
      using assms(1,2) by (simp_all add: s2_def s1_def emit_quiet emit_fields)
    from assms(3) r have bs: "b = fst (upload_single_file s3 p k s2)"
      "s' = snd (upload_single_file s3 p k s2)"
      by simp_all
    show "tally_ok s3 s' \<and> b = (failed_count s' = 0 \<and> name p \<noteq> ''.DS_Store'')"
      using worker_tally [OF t2, of p k] worker_result [OF t2, of p k] False
      by (simp add: bs f2)
  qed
qed

lemma directory_effect:
  assumes "tally_ok s3 s" and "failed_count s = 0"
    and "upload_directory s3 sched fs d dst include_root s = (res, s')"
  shows "tally_ok s3 s'"
    and "res = (if 2 \<le> length (eligible (rglob fs d)) \<and> workers s \<le> 0 then Inl ValueError
                else Inr (failed_count s' = 0))"
    and "2 \<le> length (eligible (rglob fs d)) \<and> workers s \<le> 0 \<Longrightarrow> failed_count s' = 0"
    and "eligible (rglob fs d) = [] \<Longrightarrow> res = Inr True \<and> attempted s' = attempted s"
proof -
  from upload_directory_unfold [of fs d dst include_root s3 sched s] obtain tasks pre where
    t: "map fst tasks = eligible (rglob fs d)" and q: "requests pre = []" and
    u: "upload_directory s3 sched fs d dst include_root s =
         (if tasks = [] then (Inr True, emit (pre @ [NothingToUpload]) s)
          else if length tasks = 1 then
            (Inr (fst (upload_single_file s3 (fst (tasks ! 0)) (snd (tasks ! 0)) (emit pre s))),
             snd (upload_single_file s3 (fst (tasks ! 0)) (snd (tasks ! 0)) (emit pre s)))
          else upload_concurrent s3 sched tasks (emit pre s))"
    by blast
  define n where "n = length (eligible (rglob fs d))"
  have len: "length tasks = n"
    using t unfolding n_def by (metis length_map)
  define s1 where "s1 = emit pre s"
  have t1: "tally_ok s3 s1" and f1: "failed_count s1 = 0" and w1: "workers s1 = workers s"
    and a1: "attempted s1 = attempted s"
    using assms(1,2) q by (simp_all add: s1_def emit_quiet emit_fields)
  have all: "tally_ok s3 s'
    \<and> res = (if 2 \<le> n \<and> workers s \<le> 0 then Inl ValueError else Inr (failed_count s' = 0))
    \<and> (2 \<le> n \<and> workers s \<le> 0 \<longrightarrow> failed_count s' = 0)
    \<and> (n = 0 \<longrightarrow> res = Inr True \<and> attempted s' = attempted s)"
  proof (cases "n = 0")
    case True
    then have "tasks = []"
      using len by simp
    with u assms(3) have "res = Inr True" "s' = emit (pre @ [NothingToUpload]) s"
      by simp_all
    with True assms(1,2) q show ?thesis
      by (simp add: emit_quiet emit_fields requests_append)
  next
    case False
    show ?thesis
    proof (cases "n = 1")
      case True
      with len have ne: "tasks \<noteq> []" and l1: "length tasks = 1"
        by auto
      from u have "upload_directory s3 sched fs d dst include_root s =
            (Inr (fst (upload_single_file s3 (fst (tasks ! 0)) (snd (tasks ! 0)) s1)),
             snd (upload_single_file s3 (fst (tasks ! 0)) (snd (tasks ! 0)) s1))"
        by (simp add: ne l1 s1_def)
      with assms(3) have
        "res = Inr (fst (upload_single_file s3 (fst (tasks ! 0)) (snd (tasks ! 0)) s1))"
        "s' = snd (upload_single_file s3 (fst (tasks ! 0)) (snd (tasks ! 0)) s1)"
        by simp_all
      with True worker_tally [OF t1, of "fst (tasks ! 0)" "snd (tasks ! 0)"]
        worker_result [OF t1, of "fst (tasks ! 0)" "snd (tasks ! 0)"]
      show ?thesis
        by (simp add: f1)
    next
      case many: False
      with False have n2: "2 \<le> n"
        by simp
      with len have tne: "tasks \<noteq> []" "length tasks \<noteq> Suc 0"
        by auto
      from u have "upload_directory s3 sched fs d dst include_root s
            = upload_concurrent s3 sched tasks s1"
        by (simp add: tne s1_def)
      with assms(3) have r: "upload_concurrent s3 sched tasks s1 = (res, s')"
        by simp
      show ?thesis
      proof (cases "0 < workers s")
        case True
        then have "0 < workers s1"
          by (simp add: w1)
        from concurrent_effect [OF this, of s3 sched tasks] r t1 True n2 show ?thesis
          by simp
      next
        case False
        then have "workers s1 \<le> 0"
          by (simp add: w1)
        from concurrent_no_pool [OF this, of s3 sched tasks] r
        have "res = Inl ValueError" "s' = emit [ConcurrentMode] s1"
          by simp_all
        with False n2 t1 f1 show ?thesis
          by (simp add: emit_quiet emit_fields)
      qed
    qed
  qed
  from all show "tally_ok s3 s'"
    and "res = (if 2 \<le> length (eligible (rglob fs d)) \<and> workers s \<le> 0 then Inl ValueError
                else Inr (failed_count s' = 0))"
    and "2 \<le> length (eligible (rglob fs d)) \<and> workers s \<le> 0 \<Longrightarrow> failed_count s' = 0"
    and "eligible (rglob fs d) = [] \<Longrightarrow> res = Inr True \<and> attempted s' = attempted s"
    unfolding n_def by auto
qed

section \<open>The whole operation\<close>

lemma upload_summary:
  "tally_ok s3 (snd (upload s3 sched fs src dst include_root w))
   \<and> fst (upload s3 sched fs src dst include_root w)
       = (failed_count (snd (upload s3 sched fs src dst include_root w)) = 0
          \<and> \<not> scheduling_error fs src w)
   \<and> (is_dir fs (mkPath src) \<and> eligible (rglob fs (mkPath src)) = []
        \<longrightarrow> fst (upload s3 sched fs src dst include_root w)
            \<and> attempted (snd (upload s3 sched fs src dst include_root w)) = [])
   \<and> (is_file fs (mkPath src) \<and> name (mkPath src) = ''.DS_Store''
        \<longrightarrow> \<not> fst (upload s3 sched fs src dst include_root w)
            \<and> attempted (snd (upload s3 sched fs src dst include_root w)) = [])"
proof -
  define p where "p = mkPath src"
  define d where "d = rstrip slash dst"
  define s0 where "s0 = init w"
  have t0: "tally_ok s3 s0" and f0: "failed_count s0 = 0" and a0: "attempted s0 = []"
    and w0: "workers s0 = w"
    by (simp_all add: s0_def init_tally) (simp_all add: init_def attempted_def)
  consider (absent) "fs p = None" | (regular) "fs p = Some File" | (other) "fs p = Some Special"
    | (directory) es where "fs p = Some (Dir es)"
    by (cases "fs p") (auto intro: node.exhaust)
  then show ?thesis
  proof cases
    case absent
    then have "upload s3 sched fs src dst include_root w = (False, emit [SourceNotFound p] s0)"
      by (simp add: upload_def uploader_upload_def exists_path_def p_def s0_def)
    with absent t0 f0 a0 show ?thesis
      by (simp add: scheduling_error_def exists_path_def is_dir_def is_file_def p_def [symmetric]
          emit_quiet emit_fields)
  next
    case other
    then have "upload s3 sched fs src dst include_root w
        = (False, emit [Elapsed] (emit [UnsupportedPathType p] s0))"
      by (simp add: upload_def uploader_upload_def exists_path_def is_file_def is_dir_def
          p_def s0_def)
    with other t0 f0 a0 show ?thesis
      by (simp add: scheduling_error_def exists_path_def is_dir_def is_file_def p_def [symmetric]
          emit_quiet emit_fields)
  next
    case regular
    obtain b s' where r: "upload_single_file_sync s3 p d s0 = (b, s')"
      by (cases "upload_single_file_sync s3 p d s0")
    from regular r have u: "upload s3 sched fs src dst include_root w = (b, emit [Elapsed] s')"
      by (simp add: upload_def uploader_upload_def exists_path_def is_file_def
          p_def [symmetric] s0_def [symmetric] d_def [symmetric])
    note e = sync_effect [OF t0 f0 r]
    from regular have se: "scheduling_error fs src w = (name p = ''.DS_Store'')"
      by (simp add: scheduling_error_def exists_path_def is_dir_def is_file_def p_def [symmetric])
    from regular have k: "is_file fs p" "\<not> is_dir fs p"
      by (simp_all add: is_file_def is_dir_def)
    show ?thesis
      unfolding u se p_def [symmetric] using e k a0
      by (auto simp: emit_quiet emit_fields)
  next
    case directory
    obtain res s' where r: "upload_directory s3 sched fs p d include_root s0 = (res, s')"
      by (cases "upload_directory s3 sched fs p d include_root s0")
    from directory r have u: "upload s3 sched fs src dst include_root w
        = (case res of Inl e \<Rightarrow> (False, emit [Elapsed] (emit [UploadError e] s'))
           | Inr b \<Rightarrow> (b, emit [Elapsed] s'))"
      by (simp add: upload_def uploader_upload_def exists_path_def is_file_def is_dir_def
          p_def [symmetric] s0_def [symmetric] d_def [symmetric] split: sum.splits)
    note e = directory_effect [OF t0 f0 r]
    from directory have se: "scheduling_error fs src w
        = (2 \<le> length (eligible (rglob fs p)) \<and> w \<le> 0)"
      by (simp add: scheduling_error_def exists_path_def is_dir_def is_file_def p_def [symmetric])
    from directory have k: "\<not> is_file fs p" "is_dir fs p"
      by (simp_all add: is_file_def is_dir_def)
    show ?thesis
    proof (cases "2 \<le> length (eligible (rglob fs p)) \<and> w \<le> 0")
      case True
      with e(2,3) have "res = Inl ValueError" "failed_count s' = 0"
        by (simp_all add: w0)
      with True e(1) show ?thesis
        unfolding u se p_def [symmetric] using k
        by (auto simp: emit_quiet emit_fields)
    next
      case False
      with e(2) have res: "res = Inr (failed_count s' = 0)"
        by (simp add: w0)
      show ?thesis
        unfolding u se p_def [symmetric] using k e(1) e(4) False a0 res
        by (auto simp: emit_quiet emit_fields)
    qed
  qed
qed

section \<open>The tally after the pool drains: claim C4\<close>

text \<open>
  Claim C4. When the pool can be made (the bound is positive), then after it has
  drained, whatever the schedule and whatever the client answers, the two counters
  together have grown by the number of tasks, and the requests made are exactly the
  tasks, each once: no failure keeps a sibling from being attempted. Each attempt
  adds one to exactly one counter, \<open>uploaded_count\<close> when the call returns and
  \<open>failed_count\<close> when it raises, and the worker returns a value in both cases. The
  counters agree with the client's answers throughout, and at the end of every
  invocation their sum is the number of uploads attempted.
\<close>

theorem pool_tally:
  "(0 < workers s \<longrightarrow>
      uploaded_count (snd (upload_concurrent s3 sched tasks s))
        + failed_count (snd (upload_concurrent s3 sched tasks s))
        = uploaded_count s + failed_count s + int (length tasks)
      \<and> mset (attempted (snd (upload_concurrent s3 sched tasks s)))
          = mset (attempted s) + mset (map task_request tasks)
      \<and> (tally_ok s3 s \<longrightarrow> tally_ok s3 (snd (upload_concurrent s3 sched tasks s))))
   \<and> uploaded_count (snd (upload_single_file s3 file_path s3_key s))
       = uploaded_count s + (if fst (upload_single_file s3 file_path s3_key s) then 1 else 0)
   \<and> failed_count (snd (upload_single_file s3 file_path s3_key s))
       = failed_count s + (if fst (upload_single_file s3 file_path s3_key s) then 0 else 1)
   \<and> attempted (snd (upload_single_file s3 file_path s3_key s))
       = attempted s @ [(str file_path, s3_key)]
   \<and> tally_ok s3 (snd (upload s3 sched fs src dst include_root w))
   \<and> uploaded_count (snd (upload s3 sched fs src dst include_root w))
       + failed_count (snd (upload s3 sched fs src dst include_root w))
       = int (length (attempted (snd (upload s3 sched fs src dst include_root w))))"
proof -
  have pool: "0 < workers s \<longrightarrow>
      uploaded_count (snd (upload_concurrent s3 sched tasks s))
        + failed_count (snd (upload_concurrent s3 sched tasks s))
        = uploaded_count s + failed_count s + int (length tasks)
      \<and> mset (attempted (snd (upload_concurrent s3 sched tasks s)))
          = mset (attempted s) + mset (map task_request tasks)
      \<and> (tally_ok s3 s \<longrightarrow> tally_ok s3 (snd (upload_concurrent s3 sched tasks s)))"
    using concurrent_effect [of s s3 sched tasks] by blast
  have up: "uploaded_count (snd (upload_single_file s3 file_path s3_key s))
       = uploaded_count s + (if fst (upload_single_file s3 file_path s3_key s) then 1 else 0)"
    and fl: "failed_count (snd (upload_single_file s3 file_path s3_key s))
       = failed_count s + (if fst (upload_single_file s3 file_path s3_key s) then 0 else 1)"
    using worker_requests [of s3 file_path s3_key s] by auto
  have at: "attempted (snd (upload_single_file s3 file_path s3_key s))
       = attempted s @ [(str file_path, s3_key)]"
    by (rule worker_attempted)
  have ok: "tally_ok s3 (snd (upload s3 sched fs src dst include_root w))"
    using upload_summary [of s3 sched fs src dst include_root w] by blast
  from pool up fl at ok tally_sum [OF ok] show ?thesis
    by blast
qed

theorem pool_tally_witness:
  "0 < workers (init 10) \<and> tally_ok flaky (init 10)
   \<and> uploaded_count (snd (upload_concurrent flaky [3, 0, 2] five_tasks (init 10)))
       + failed_count (snd (upload_concurrent flaky [3, 0, 2] five_tasks (init 10))) = 5
   \<and> tally_ok flaky (snd (upload_concurrent flaky [3, 0, 2] five_tasks (init 10)))
   \<and> uploaded_count (snd (upload_concurrent flaky [3, 0, 2] five_tasks (init 10))) = 3
   \<and> failed_count (snd (upload_concurrent flaky [3, 0, 2] five_tasks (init 10))) = 2
   \<and> fst (upload_concurrent flaky [3, 0, 2] five_tasks (init 10)) = Inr False"
proof -
  have h: "0 < workers (init 10)"
    by (simp add: init_def)
  have t: "tally_ok flaky (init 10)"
    by (rule init_tally)
  have v: "uploaded_count (snd (upload_concurrent flaky [3, 0, 2] five_tasks (init 10))) = 3
     \<and> failed_count (snd (upload_concurrent flaky [3, 0, 2] five_tasks (init 10))) = 2
     \<and> fst (upload_concurrent flaky [3, 0, 2] five_tasks (init 10)) = Inr False"
    by (simp add: upload_concurrent_def upload_single_file_def five_tasks_def flaky_def init_def
        emit_def Let_def)
  from pool_tally [of "init 10" flaky "[3, 0, 2]" five_tasks] h t v show ?thesis
    by simp
qed

section \<open>The overall result: claim C3\<close>

text \<open>
  Claim C3. The operation returns true exactly when the failed counter is 0 at the end
  and no error of scheduling occurred; these errors are a missing source, a source that
  is neither file nor directory, a single file with the excluded name, and a pool that
  cannot be made. A directory without any file to upload gives true and no request to
  the storage client; a single file named \<^verbatim>\<open>.DS_Store\<close> gives false and no request.
\<close>

theorem overall_result:
  "fst (upload s3 sched fs src dst include_root w)
     = (failed_count (snd (upload s3 sched fs src dst include_root w)) = 0
        \<and> \<not> scheduling_error fs src w)
   \<and> (is_dir fs (mkPath src) \<and> eligible (rglob fs (mkPath src)) = []
        \<longrightarrow> fst (upload s3 sched fs src dst include_root w)
            \<and> attempted (snd (upload s3 sched fs src dst include_root w)) = [])
   \<and> (is_file fs (mkPath src) \<and> name (mkPath src) = ''.DS_Store''
        \<longrightarrow> \<not> fst (upload s3 sched fs src dst include_root w)
            \<and> attempted (snd (upload s3 sched fs src dst include_root w)) = [])"
  using upload_summary [of s3 sched fs src dst include_root w] by blast

theorem overall_result_witness:
  "is_dir junk_fs (mkPath ''junk'') \<and> eligible (rglob junk_fs (mkPath ''junk'')) = []
   \<and> fst (upload reliable [] junk_fs ''junk'' ''/site'' False 10)
   \<and> attempted (snd (upload reliable [] junk_fs ''junk'' ''/site'' False 10)) = []
   \<and> \<not> scheduling_error junk_fs ''junk'' 10
   \<and> is_file junk_fs (mkPath ''.DS_Store'') \<and> name (mkPath ''.DS_Store'') = ''.DS_Store''
   \<and> \<not> fst (upload reliable [] junk_fs ''.DS_Store'' ''/site'' False 10)
   \<and> attempted (snd (upload reliable [] junk_fs ''.DS_Store'' ''/site'' False 10)) = []
   \<and> scheduling_error junk_fs ''.DS_Store'' 10"
proof -
  have d: "is_dir junk_fs (mkPath ''junk'')"
    and e: "eligible (rglob junk_fs (mkPath ''junk'')) = []"
    by (simp_all add: is_dir_def junk_fs_def eligible_def rglob_def string_defs path_defs)
  have f: "is_file junk_fs (mkPath ''.DS_Store'')"
    and n: "name (mkPath ''.DS_Store'') = ''.DS_Store''"
    by (simp_all add: is_file_def junk_fs_def string_defs path_defs)
  have s1: "\<not> scheduling_error junk_fs ''junk'' 10"
    using e by (simp add: scheduling_error_def exists_path_def is_file_def is_dir_def junk_fs_def
        string_defs path_defs)
  have s2: "scheduling_error junk_fs ''.DS_Store'' 10"
    using f n by (simp add: scheduling_error_def)
  from overall_result [of reliable "[]" junk_fs "''junk''" "''/site''" False 10]
    overall_result [of reliable "[]" junk_fs "''.DS_Store''" "''/site''" False 10]
    d e f n s1 s2
  show ?thesis
    by blast
qed

section \<open>What the walk finds\<close>

lemma lookup_leaf: "rel \<noteq> [] \<Longrightarrow> lookup File rel = None \<and> lookup Special rel = None"
  by (cases rel) simp_all

lemma walk_iff:
  "distinct_names nd \<Longrightarrow>
     ((p, x) \<in> set (walk d nd))
       = (\<exists>rel. rel \<noteq> [] \<and> p = below d rel \<and> lookup nd rel = Some x)"
proof (induction d nd arbitrary: p x rule: walk.induct)
  case (1 d es)
  from "1.prems" have dn: "distinct (map fst es)"
    and sub: "\<And>e. e \<in> set es \<Longrightarrow> distinct_names (snd e)"
    by (simp_all add: list_all_iff)
  have IH: "\<And>e p x. e \<in> set es \<Longrightarrow>
      ((p, x) \<in> set (walk (joinpath d (fst e)) (snd e)))
        = (\<exists>rel. rel \<noteq> [] \<and> p = below d (fst e # rel) \<and> lookup (snd e) rel = Some x)"
    using "1.IH" sub by (simp add: below_joinpath)
  have entry: "\<And>e. e \<in> set es \<Longrightarrow> map_of es (fst e) = Some (snd e)"
    using dn by simp
  show ?case
  proof
    assume "(p, x) \<in> set (walk d (Dir es))"
    then consider
      (direct) e where "e \<in> set es" "p = joinpath d (fst e)" "x = snd e"
      | (nested) e where "e \<in> set es" "(p, x) \<in> set (walk (joinpath d (fst e)) (snd e))"
      by auto
    then show "\<exists>rel. rel \<noteq> [] \<and> p = below d rel \<and> lookup (Dir es) rel = Some x"
    proof cases
      case direct
      then have "p = below d [fst e]" "lookup (Dir es) [fst e] = Some x"
        by (simp_all add: joinpath_below entry)
      then show ?thesis
        by blast
    next
      case nested
      with IH obtain rel where "rel \<noteq> []" "p = below d (fst e # rel)"
        "lookup (snd e) rel = Some x"
        by blast
      with nested(1) have "p = below d (fst e # rel)" "lookup (Dir es) (fst e # rel) = Some x"
        by (simp_all add: entry)
      then show ?thesis
        by blast
    qed
  next
    assume "\<exists>rel. rel \<noteq> [] \<and> p = below d rel \<and> lookup (Dir es) rel = Some x"
    then obtain n rel where p: "p = below d (n # rel)" and l: "lookup (Dir es) (n # rel) = Some x"
      by (auto simp: neq_Nil_conv)
    from l obtain y where y: "map_of es n = Some y" "lookup y rel = Some x"
      by (auto split: option.splits)
    then have mem: "(n, y) \<in> set es"
      by (simp add: map_of_SomeD)
    show "(p, x) \<in> set (walk d (Dir es))"
    proof (cases "rel = []")
      case True
      with y have "x = y"
        by simp
      with mem p True have "(p, x) \<in> (\<lambda>e. (joinpath d (fst e), snd e)) ` set es"
        by (force simp: joinpath_below)
      then show ?thesis
        by simp
    next
      case False
      with IH [OF mem, of p x] p y have "(p, x) \<in> set (walk (joinpath d n) y)"
        by auto
      with mem show ?thesis
        by force
    qed
  qed
next
  case (2 d)
  show ?case
    using lookup_leaf by auto
next
  case (3 d)
  show ?case
    using lookup_leaf by auto
qed

lemma distinct_concat_keyed:
  "distinct (map fst es) \<Longrightarrow>
   (\<And>e. e \<in> set es \<Longrightarrow> distinct (f e)) \<Longrightarrow>
   (\<And>e p. e \<in> set es \<Longrightarrow> p \<in> set (f e) \<Longrightarrow> key p = fst e) \<Longrightarrow>
   distinct (concat (map f es))"
proof (induction es)
  case Nil
  then show ?case by simp
next
  case (Cons e es)
  have "distinct (concat (map f es))"
    using Cons by simp
  moreover have "distinct (f e)"
    using Cons.prems(2) by simp
  moreover have "set (f e) \<inter> (\<Union>e' \<in> set es. set (f e')) = {}"
  proof (rule ccontr)
    assume "set (f e) \<inter> (\<Union>e' \<in> set es. set (f e')) \<noteq> {}"
    then obtain p e' where "p \<in> set (f e)" "e' \<in> set es" "p \<in> set (f e')"
      by auto
    with Cons.prems(3) [of e p] Cons.prems(3) [of e' p] have "fst e = fst e'"
      by simp
    with \<open>e' \<in> set es\<close> Cons.prems(1) show False
      by force
  qed
  ultimately show ?case
    by simp
qed

lemma walk_distinct: "distinct_names nd \<Longrightarrow> distinct (map fst (walk d nd))"
proof (induction d nd rule: walk.induct)
  case (1 d es)
  from "1.prems" have dn: "distinct (map fst es)"
    and sub: "\<And>e. e \<in> set es \<Longrightarrow> distinct_names (snd e)"
    by (simp_all add: list_all_iff)
  define f where "f = (\<lambda>e. map fst (walk (joinpath d (fst e)) (snd e)))"
  define key where "key = (\<lambda>p. parts p ! length (parts d))"
  have shape: "\<And>e p. p \<in> set (f e) \<Longrightarrow> \<exists>rel. rel \<noteq> [] \<and> p = below d (fst e # rel)"
  proof -
    fix e p assume "p \<in> set (f e)"
    then obtain x where "(p, x) \<in> set (walk (joinpath d (fst e)) (snd e))"
      by (auto simp: f_def)
    from walk_sound [OF this] show "\<exists>rel. rel \<noteq> [] \<and> p = below d (fst e # rel)"
      by (simp add: below_joinpath)
  qed
  have m: "map fst (walk d (Dir es)) = map (\<lambda>e. below d [fst e]) es @ concat (map f es)"
    by (simp add: f_def joinpath_below comp_def map_concat)
  have a: "distinct (map (\<lambda>e. below d [fst e]) es)"
  proof -
    have inj: "inj_on (\<lambda>n. below d [n]) (set (map fst es))"
      by (rule inj_onI) (simp add: below_inject)
    have "distinct (map (\<lambda>n. below d [n]) (map fst es))"
      by (intro distinct_map [THEN iffD2] conjI dn inj)
    then show ?thesis
      by (simp add: comp_def)
  qed
  have b: "distinct (concat (map f es))"
  proof (rule distinct_concat_keyed [OF dn, where key = key])
    fix e assume "e \<in> set es"
    with "1.IH" sub show "distinct (f e)"
      by (simp add: f_def)
  next
    fix e p assume "e \<in> set es" "p \<in> set (f e)"
    with shape obtain rel where "p = below d (fst e # rel)"
      by blast
    then show "key p = fst e"
      by (simp add: key_def below_def)
  qed
  have c: "set (map (\<lambda>e. below d [fst e]) es) \<inter> set (concat (map f es)) = {}"
  proof (rule ccontr)
    assume "set (map (\<lambda>e. below d [fst e]) es) \<inter> set (concat (map f es)) \<noteq> {}"
    then obtain p where p1: "p \<in> set (map (\<lambda>e. below d [fst e]) es)"
      and p2: "p \<in> set (concat (map f es))"
      by blast
    from p1 obtain e where e: "p = below d [fst e]"
      by auto
    from p2 obtain e' where "p \<in> set (f e')"
      by auto
    from shape [OF this] obtain rel where "rel \<noteq> []" "p = below d (fst e' # rel)"
      by blast
    with e show False
      by (simp add: below_inject)
  qed
  from a b c show ?case
    unfolding m by simp
qed simp_all

lemma member_filter_walk:
  assumes "distinct_names nd"
  shows "(below d rel \<in> set (map fst (filter (\<lambda>e. snd e = File \<and> Q (name (fst e))) (walk d nd))))
     = (rel \<noteq> [] \<and> lookup nd rel = Some File \<and> Q (last rel))"
proof -
  have "(below d rel \<in> set (map fst (filter (\<lambda>e. snd e = File \<and> Q (name (fst e))) (walk d nd))))
      = ((below d rel, File) \<in> set (walk d nd) \<and> Q (name (below d rel)))"
    by force
  also have "\<dots> = ((\<exists>rel'. rel' \<noteq> [] \<and> below d rel = below d rel' \<and> lookup nd rel' = Some File)
      \<and> Q (name (below d rel)))"
    by (simp only: walk_iff [OF assms])
  also have "\<dots> = ((rel \<noteq> [] \<and> lookup nd rel = Some File) \<and> Q (name (below d rel)))"
    by (auto simp: below_inject)
  also have "\<dots> = (rel \<noteq> [] \<and> lookup nd rel = Some File \<and> Q (last rel))"
    by (auto simp: name_below)
  finally show ?thesis .
qed

lemma worker_trace: "\<exists>post. trace (snd (upload_single_file s3 p k s)) = trace s @ post"
  by (simp add: upload_single_file_def emit_def Let_def)

lemma drain_trace:
  "0 < workers s \<Longrightarrow> \<exists>post. trace (drain s3 sched tasks s) = trace s @ post"
proof (induction tasks arbitrary: s sched rule: length_induct)
  case (1 tasks)
  show ?case
  proof (cases tasks)
    case Nil
    then show ?thesis by simp
  next
    case (Cons t ts)
    from drain_step [OF "1.prems", of t ts s3 sched] obtain i where
      i: "i < length (t # ts)" and
      step: "drain s3 sched (t # ts) s
       = drain s3 (tl sched) (take i (t # ts) @ drop (Suc i) (t # ts))
           (snd (upload_single_file s3 (fst ((t # ts) ! i)) (snd ((t # ts) ! i)) s))"
      by blast
    define rest where "rest = take i (t # ts) @ drop (Suc i) (t # ts)"
    define s1 where "s1 = snd (upload_single_file s3 (fst ((t # ts) ! i)) (snd ((t # ts) ! i)) s)"
    have shorter: "length rest < length tasks"
      using i Cons by (simp add: rest_def)
    have "0 < workers s1"
      using "1.prems" by (simp add: s1_def worker_workers)
    with "1.IH" shorter obtain post2 where p2: "trace (drain s3 (tl sched) rest s1) = trace s1 @ post2"
      by blast
    from worker_trace [of s3 "fst ((t # ts) ! i)" "snd ((t # ts) ! i)" s]
    obtain post1 where p1: "trace s1 = trace s @ post1"
      unfolding s1_def by blast
    have "trace (drain s3 sched tasks s) = trace s @ post1 @ post2"
      unfolding Cons step using p1 p2 by (simp add: rest_def s1_def)
    then show ?thesis
      by blast
  qed
qed

lemma concurrent_trace:
  "\<exists>post. trace (snd (upload_concurrent s3 sched tasks s)) = trace s @ post"
proof (cases "0 < workers s")
  case True
  then have "0 < workers (emit [ConcurrentMode] s)"
    by (simp add: emit_fields)
  from drain_trace [OF this, of s3 sched tasks] obtain post where
    "trace (drain s3 sched tasks (emit [ConcurrentMode] s)) = trace s @ ConcurrentMode # post"
    by (auto simp: emit_fields)
  with True show ?thesis
    by (simp add: upload_concurrent_def Let_def emit_fields)
next
  case False
  then show ?thesis
    by (simp add: upload_concurrent_def Let_def emit_fields)
qed

lemma directory_trace:
  "\<exists>tasks pre post.
     map fst tasks = eligible (rglob fs d)
     \<and> collect d dst include_root (rglob fs d) ([], [], [])
         = Inr (tasks, excluded (rglob fs d), warned (rglob fs d))
     \<and> requests pre = []
     \<and> set (map WarnFile (warned (rglob fs d))) \<subseteq> set pre
     \<and> (excluded (rglob fs d) = [] \<or> ExcludedCount (length (excluded (rglob fs d))) \<in> set pre)
     \<and> trace (snd (upload_directory s3 sched fs d dst include_root s)) = trace s @ pre @ post"
proof -
  from upload_directory_unfold [of fs d dst include_root s3 sched s] obtain tasks pre where
    t: "map fst tasks = eligible (rglob fs d)"
    and c: "collect d dst include_root (rglob fs d) ([], [], [])
         = Inr (tasks, excluded (rglob fs d), warned (rglob fs d))"
    and q: "requests pre = []"
    and w: "set (map WarnFile (warned (rglob fs d))) \<subseteq> set pre"
    and e: "excluded (rglob fs d) = [] \<or> ExcludedCount (length (excluded (rglob fs d))) \<in> set pre"
    and u: "upload_directory s3 sched fs d dst include_root s =
         (if tasks = [] then (Inr True, emit (pre @ [NothingToUpload]) s)
          else if length tasks = 1 then
            (Inr (fst (upload_single_file s3 (fst (tasks ! 0)) (snd (tasks ! 0)) (emit pre s))),
             snd (upload_single_file s3 (fst (tasks ! 0)) (snd (tasks ! 0)) (emit pre s)))
          else upload_concurrent s3 sched tasks (emit pre s))"
    by blast
  from worker_trace [of s3 "fst (tasks ! 0)" "snd (tasks ! 0)" "emit pre s"] obtain post1 where
    p1: "trace (snd (upload_single_file s3 (fst (tasks ! 0)) (snd (tasks ! 0)) (emit pre s)))
           = trace s @ pre @ post1"
    by (auto simp: emit_fields)
  from concurrent_trace [of s3 sched tasks "emit pre s"] obtain post2 where
    p2: "trace (snd (upload_concurrent s3 sched tasks (emit pre s))) = trace s @ pre @ post2"
    by (auto simp: emit_fields)
  have "\<exists>post. trace (snd (upload_directory s3 sched fs d dst include_root s)) = trace s @ pre @ post"
    unfolding u using p1 p2 by (simp add: emit_fields)
  then obtain post where
    "trace (snd (upload_directory s3 sched fs d dst include_root s)) = trace s @ pre @ post"
    by (rule exE)
  with t c q w e show ?thesis
    by (intro exI [of _ tasks] exI [of _ pre] exI [of _ post] conjI)
qed

section \<open>The task list of a directory: claim C6\<close>

text \<open>
  Claim C6. Take a directory source whose tree lists no name twice in one directory.
  The loop over the walk ends without an error, and in its task list every regular
  file under the source appears exactly once, except the files named \<^verbatim>\<open>.DS_Store\<close>,
  which do not appear at all; nothing else appears. The files named \<^verbatim>\<open>.DS_Store\<close>
  are exactly the excluded ones, and when there are any their number is printed. The
  other regular files whose name starts with a dot are exactly the ones warned about:
  each is in the task list, and each is printed in the part of the trace that comes
  before the first request to the storage client.
\<close>

theorem directory_task_list:
  assumes "fs d = Some nd" and "distinct_names nd"
  shows "\<exists>tasks pre post.
     collect d dst include_root (rglob fs d) ([], [], [])
       = Inr (tasks, excluded (rglob fs d), warned (rglob fs d))
     \<and> (\<forall>p \<in> set (map fst tasks). \<exists>rel. p = below d rel)
     \<and> (\<forall>rel. count (mset (map fst tasks)) (below d rel)
           = (if rel \<noteq> [] \<and> lookup nd rel = Some File \<and> last rel \<noteq> ''.DS_Store''
              then 1 else 0))
     \<and> (\<forall>rel. (below d rel \<in> set (excluded (rglob fs d)))
           = (rel \<noteq> [] \<and> lookup nd rel = Some File \<and> last rel = ''.DS_Store''))
     \<and> (\<forall>rel. (below d rel \<in> set (warned (rglob fs d)))
           = (rel \<noteq> [] \<and> lookup nd rel = Some File \<and> last rel \<noteq> ''.DS_Store''
              \<and> startswith (last rel) CHR ''.''))
     \<and> set (warned (rglob fs d)) \<subseteq> set (map fst tasks)
     \<and> trace (snd (upload_directory s3 sched fs d dst include_root s)) = trace s @ pre @ post
     \<and> requests pre = []
     \<and> set (map WarnFile (warned (rglob fs d))) \<subseteq> set pre
     \<and> (excluded (rglob fs d) = []
         \<or> ExcludedCount (length (excluded (rglob fs d))) \<in> set pre)"
proof -
  have R: "rglob fs d = walk d nd"
    using assms(1) by (simp add: rglob_def)
  from directory_trace [of fs d dst include_root s3 sched s] obtain tasks pre post where
    t: "map fst tasks = eligible (rglob fs d)"
    and c: "collect d dst include_root (rglob fs d) ([], [], [])
         = Inr (tasks, excluded (rglob fs d), warned (rglob fs d))"
    and q: "requests pre = []"
    and w: "set (map WarnFile (warned (rglob fs d))) \<subseteq> set pre"
    and e: "excluded (rglob fs d) = [] \<or> ExcludedCount (length (excluded (rglob fs d))) \<in> set pre"
    and tr: "trace (snd (upload_directory s3 sched fs d dst include_root s)) = trace s @ pre @ post"
    by blast
  have dist: "distinct (map fst tasks)"
    unfolding t R eligible_def by (rule distinct_map_filter) (rule walk_distinct [OF assms(2)])
  have mem: "\<And>rel. (below d rel \<in> set (map fst tasks))
      = (rel \<noteq> [] \<and> lookup nd rel = Some File \<and> last rel \<noteq> ''.DS_Store'')"
    unfolding t R eligible_def
    by (rule member_filter_walk [OF assms(2), where Q = "\<lambda>n. n \<noteq> ''.DS_Store''"])
  have cnt: "\<forall>rel. count (mset (map fst tasks)) (below d rel)
           = (if rel \<noteq> [] \<and> lookup nd rel = Some File \<and> last rel \<noteq> ''.DS_Store''
              then 1 else 0)"
    using dist mem by (simp add: distinct_count_atmost_1)
  have shape: "\<forall>p \<in> set (map fst tasks). \<exists>rel. p = below d rel"
  proof
    fix p assume "p \<in> set (map fst tasks)"
    then obtain x where "(p, x) \<in> set (walk d nd)"
      unfolding t R eligible_def by auto
    from walk_sound [OF this] show "\<exists>rel. p = below d rel"
      by blast
  qed
  have ex: "\<forall>rel. (below d rel \<in> set (excluded (rglob fs d)))
           = (rel \<noteq> [] \<and> lookup nd rel = Some File \<and> last rel = ''.DS_Store'')"
    unfolding R excluded_def
    by (rule allI) (rule member_filter_walk [OF assms(2), where Q = "\<lambda>n. n = ''.DS_Store''"])
  have wa: "\<forall>rel. (below d rel \<in> set (warned (rglob fs d)))
           = (rel \<noteq> [] \<and> lookup nd rel = Some File \<and> last rel \<noteq> ''.DS_Store''
              \<and> startswith (last rel) CHR ''.'')"
    unfolding R warned_def
    by (rule allI) (rule member_filter_walk [OF assms(2),
        where Q = "\<lambda>n. n \<noteq> ''.DS_Store'' \<and> startswith n CHR ''.''"])
  have sub: "set (warned (rglob fs d)) \<subseteq> set (map fst tasks)"
    unfolding t warned_def eligible_def by auto
  from c shape cnt ex wa sub tr q w e show ?thesis
    by (intro exI [of _ tasks] exI [of _ pre] exI [of _ post] conjI)
qed

theorem directory_task_list_witness:
  "site_fs (mkPath ''site'') = Some site_tree \<and> distinct_names site_tree
   \<and> (\<exists>tasks.
         collect (mkPath ''site'') ''site'' False (rglob site_fs (mkPath ''site'')) ([], [], [])
           = Inr (tasks, excluded (rglob site_fs (mkPath ''site'')),
                  warned (rglob site_fs (mkPath ''site'')))
         \<and> count (mset (map fst tasks)) (below (mkPath ''site'') [''a.html'']) = 1
         \<and> count (mset (map fst tasks)) (below (mkPath ''site'') [''conf'', ''.env'']) = 1
         \<and> count (mset (map fst tasks)) (below (mkPath ''site'') [''.DS_Store'']) = 0
         \<and> below (mkPath ''site'') [''.DS_Store''] \<in> set (excluded (rglob site_fs (mkPath ''site'')))
         \<and> below (mkPath ''site'') [''conf'', ''.env'']
             \<in> set (warned (rglob site_fs (mkPath ''site''))))"
proof -
  have h1: "site_fs (mkPath ''site'') = Some site_tree"
    by (simp add: site_fs_def)
  have h2: "distinct_names site_tree"
    by (simp add: site_tree_def)
  have l: "lookup site_tree [''a.html''] = Some File"
    "lookup site_tree [''conf'', ''.env''] = Some File"
    "lookup site_tree [''.DS_Store''] = Some File"
    by (simp_all add: site_tree_def)
  have dot: "startswith ''.env'' CHR ''.''"
    by (simp add: startswith_def)
  from directory_task_list [where fs = site_fs and d = "mkPath ''site''" and nd = site_tree
      and dst = "''site''" and include_root = False and ?s3.0 = reliable and sched = "[]"
      and s = "init 10", OF h1 h2]
  obtain tasks where
    c: "collect (mkPath ''site'') ''site'' False (rglob site_fs (mkPath ''site'')) ([], [], [])
           = Inr (tasks, excluded (rglob site_fs (mkPath ''site'')),
                  warned (rglob site_fs (mkPath ''site'')))"
    and cnt: "\<forall>rel. count (mset (map fst tasks)) (below (mkPath ''site'') rel)
           = (if rel \<noteq> [] \<and> lookup site_tree rel = Some File \<and> last rel \<noteq> ''.DS_Store''
              then 1 else 0)"
    and ex: "\<forall>rel. (below (mkPath ''site'') rel \<in> set (excluded (rglob site_fs (mkPath ''site''))))
           = (rel \<noteq> [] \<and> lookup site_tree rel = Some File \<and> last rel = ''.DS_Store'')"
    and wa: "\<forall>rel. (below (mkPath ''site'') rel \<in> set (warned (rglob site_fs (mkPath ''site''))))
           = (rel \<noteq> [] \<and> lookup site_tree rel = Some File \<and> last rel \<noteq> ''.DS_Store''
              \<and> startswith (last rel) CHR ''.'')"
    by (elim exE conjE)
  from cnt [rule_format, of "[''a.html'']"] l
  have c1: "count (mset (map fst tasks)) (below (mkPath ''site'') [''a.html'']) = 1"
    by simp
  from cnt [rule_format, of "[''conf'', ''.env'']"] l
  have c2: "count (mset (map fst tasks)) (below (mkPath ''site'') [''conf'', ''.env'']) = 1"
    by simp
  from cnt [rule_format, of "[''.DS_Store'']"]
  have c3: "count (mset (map fst tasks)) (below (mkPath ''site'') [''.DS_Store'']) = 0"
    by simp
  from ex [rule_format, of "[''.DS_Store'']"] l
  have c4: "below (mkPath ''site'') [''.DS_Store''] \<in> set (excluded (rglob site_fs (mkPath ''site'')))"
    by simp
  from wa [rule_format, of "[''conf'', ''.env'']"] l dot
  have c5: "below (mkPath ''site'') [''conf'', ''.env'']
             \<in> set (warned (rglob site_fs (mkPath ''site'')))"
    by simp
  from h1 h2 c c1 c2 c3 c4 c5 show ?thesis
    by (intro conjI exI [of _ tasks])
qed

end
